theory Spec2Isabelle
  imports Complex_Main "HOL-Library.Word"
begin

section \<open>The H.264 decoder replacement of the Tello video pipeline\<close>

text \<open>
  A shallow embedding of \<^verbatim>\<open>opencv_h264_decoder.py\<close>: the class
  \<^verbatim>\<open>OpenCVH264Decoder\<close> with its packet buffer, the compatibility wrapper
  \<^verbatim>\<open>H264Decoder\<close>, the alternative \<^verbatim>\<open>FFmpegH264Decoder\<close> and the static
  method \<^verbatim>\<open>create_dummy_frame\<close>. Objects are records, a method takes the object
  and returns the result together with the updated object, and a raised exception is the
  left injection of a sum.
\<close>

subsection \<open>Data\<close>

type_synonym byte = "8 word"

text \<open>
  A numpy array of shape \<open>(height, width, 3)\<close> and dtype \<open>uint8\<close>: rows of pixels of
  channel values.
\<close>

type_synonym image = "byte list list list"

text \<open>The tuples \<^verbatim>\<open>(frame, width, height, linesize)\<close> of the decode result.\<close>

type_synonym frame = "image \<times> nat \<times> nat \<times> nat"

text \<open>
  The exceptions of the model: \<open>ValueError\<close> is what numpy raises on a dimension it
  does not accept, \<open>MemoryError\<close> what it raises when the memory for an array is not
  granted, and \<open>DecodeError\<close> stands for any exception of the decode attempt.
\<close>

datatype error = ValueError | MemoryError | DecodeError

record OpenCVH264Decoder =
  frame_buffer :: "byte list"
  last_frames :: "frame list"

record H264Decoder =
  decoder :: OpenCVH264Decoder
  use_fallback :: bool

text \<open>
  \<open>subprocess\<close> is the attribute holding the imported module; it is only assigned when
  the import succeeds.
\<close>

record FFmpegH264Decoder =
  subprocess :: "unit option"
  ffmpeg_available :: bool

subsection \<open>OpenCVH264Decoder\<close>

definition OpenCVH264Decoder_init :: OpenCVH264Decoder where
  "OpenCVH264Decoder_init = \<lparr>frame_buffer = [], last_frames = []\<rparr>"

text \<open>\<^verbatim>\<open>_decode_h264_buffer\<close>: \<^verbatim>\<open>frames = []; return frames\<close>.\<close>

definition decode_h264_buffer :: "byte list \<Rightarrow> error + frame list" where
  "decode_h264_buffer buffer_bytes = Inr []"

text \<open>The literal \<^verbatim>\<open>1024 * 1024\<close> of the exception handler.\<close>

definition buffer_limit :: nat where
  "buffer_limit = 1024 * 1024"

text \<open>
  \<^verbatim>\<open>OpenCVH264Decoder.decode\<close>. An empty packet returns at once. Otherwise the
  packet is appended to the buffer, and inside \<^verbatim>\<open>try\<close> the buffer is handed to
  \<^verbatim>\<open>_decode_h264_buffer\<close>: a non-empty result is returned and the buffer cleared,
  an empty one is returned and the buffer kept. The \<^verbatim>\<open>except Exception\<close> handler
  clears the buffer when it is longer than the limit and lets the empty list be returned
  (its \<^verbatim>\<open>print\<close> to the console is not part of the state).
\<close>

definition OpenCVH264Decoder_decode ::
  "byte list \<Rightarrow> OpenCVH264Decoder \<Rightarrow> error + (frame list \<times> OpenCVH264Decoder)" where
  "OpenCVH264Decoder_decode packet_data self =
     (if packet_data = [] then Inr ([], self)
      else
        let self1 = self\<lparr>frame_buffer := frame_buffer self @ packet_data\<rparr> in
        (case decode_h264_buffer (frame_buffer self1) of
           Inr decoded_frames \<Rightarrow>
             if decoded_frames \<noteq> [] then Inr (decoded_frames, self1\<lparr>frame_buffer := []\<rparr>)
             else Inr ([], self1)
         | Inl e \<Rightarrow>
             if length (frame_buffer self1) > buffer_limit
             then Inr ([], self1\<lparr>frame_buffer := []\<rparr>)
             else Inr ([], self1)))"

text \<open>
  The receive loop of a caller: one \<^verbatim>\<open>decode\<close> call per packet, in order, on the
  same object. An exception of a call ends the loop; otherwise the results of the calls
  are collected in order.
\<close>

fun OpenCVH264Decoder_feed ::
  "byte list list \<Rightarrow> OpenCVH264Decoder \<Rightarrow> error + (frame list list \<times> OpenCVH264Decoder)" where
  "OpenCVH264Decoder_feed [] self = Inr ([], self)"
| "OpenCVH264Decoder_feed (p # ps) self =
     (case OpenCVH264Decoder_decode p self of
        Inl e \<Rightarrow> Inl e
      | Inr (fs, self1) \<Rightarrow>
          (case OpenCVH264Decoder_feed ps self1 of
             Inl e \<Rightarrow> Inl e
           | Inr (fss, self2) \<Rightarrow> Inr (fs # fss, self2)))"

subsection \<open>H264Decoder, the compatibility wrapper\<close>

definition H264Decoder_init :: H264Decoder where
  "H264Decoder_init = \<lparr>decoder = OpenCVH264Decoder_init, use_fallback = True\<rparr>"

definition H264Decoder_decode ::
  "byte list \<Rightarrow> H264Decoder \<Rightarrow> error + (frame list \<times> H264Decoder)" where
  "H264Decoder_decode packet_data self =
     (if \<not> use_fallback self then
        (case OpenCVH264Decoder_decode packet_data (decoder self) of
           Inl e \<Rightarrow> Inl e
         | Inr (fs, d) \<Rightarrow> Inr (fs, self\<lparr>decoder := d\<rparr>))
      else Inr ([], self))"

fun H264Decoder_feed ::
  "byte list list \<Rightarrow> H264Decoder \<Rightarrow> error + (frame list list \<times> H264Decoder)" where
  "H264Decoder_feed [] self = Inr ([], self)"
| "H264Decoder_feed (p # ps) self =
     (case H264Decoder_decode p self of
        Inl e \<Rightarrow> Inl e
      | Inr (fs, self1) \<Rightarrow>
          (case H264Decoder_feed ps self1 of
             Inl e \<Rightarrow> Inl e
           | Inr (fss, self2) \<Rightarrow> Inr (fs # fss, self2)))"

subsection \<open>FFmpegH264Decoder\<close>

text \<open>
  The constructor imports \<^verbatim>\<open>subprocess\<close> inside \<^verbatim>\<open>try\<close>; the argument says
  whether the import succeeds.
\<close>

definition FFmpegH264Decoder_init :: "bool \<Rightarrow> FFmpegH264Decoder" where
  "FFmpegH264Decoder_init import_ok =
     (if import_ok then \<lparr>subprocess = Some (), ffmpeg_available = True\<rparr>
      else \<lparr>subprocess = None, ffmpeg_available = False\<rparr>)"

definition FFmpegH264Decoder_decode ::
  "byte list \<Rightarrow> FFmpegH264Decoder \<Rightarrow> error + (frame list \<times> FFmpegH264Decoder)" where
  "FFmpegH264Decoder_decode packet_data self =
     (if \<not> ffmpeg_available self then Inr ([], self) else Inr ([], self))"

subsection \<open>Double precision\<close>

text \<open>
  numpy computes the samples of \<^verbatim>\<open>np.linspace\<close> in IEEE double precision: every
  operation returns the double nearest to the exact result, the one with the even
  significand on a tie. A double that is not negative is modelled by a significand and an
  exponent, the pair \<open>(m, e)\<close> standing for \<open>m * 2 ^ e\<close>, and results are rounded to 53
  significant bits. The numbers that arise below (the indices, the step \<open>255 / (num - 1)\<close>
  for \<open>num\<close> below \<open>2 ^ 63\<close>, and their products, which stay near 255 at most) are far from
  overflow and from the subnormal range, so neither is modelled.
\<close>

type_synonym dbl = "nat \<times> int"

text \<open>The integer nearest to \<open>p / q\<close>, the even one on a tie.\<close>

definition rne :: "nat \<Rightarrow> nat \<Rightarrow> nat" where
  "rne p q =
     (let d = p div q; r = p mod q
      in if 2 * r < q then d
         else if q < 2 * r then d + 1
         else if even d then d else d + 1)"

text \<open>The number of binary digits of \<open>n\<close>.\<close>

fun bitlength :: "nat \<Rightarrow> nat" where
  "bitlength n = (if n = 0 then 0 else Suc (bitlength (n div 2)))"

declare bitlength.simps [simp del]

text \<open>The exponent \<open>t\<close> with \<open>2 ^ t \<le> p / q < 2 ^ (t + 1)\<close>, for positive \<open>p\<close> and \<open>q\<close>.\<close>

definition ilog2 :: "nat \<Rightarrow> nat \<Rightarrow> int" where
  "ilog2 p q =
     (let t = int (bitlength p) - int (bitlength q)
      in if (if 0 \<le> t then q * 2 ^ nat t \<le> p else q \<le> p * 2 ^ nat (- t)) then t else t - 1)"

text \<open>
  The double nearest to \<open>p / q\<close>: with the exponent \<open>e\<close> that puts \<open>p / q / 2 ^ e\<close>
  between \<open>2 ^ 52\<close> and \<open>2 ^ 53\<close>, the significand is that quotient rounded.
\<close>

definition fl_frac :: "nat \<Rightarrow> nat \<Rightarrow> dbl" where
  "fl_frac p q =
     (if p = 0 then (0, 0)
      else let e = ilog2 p q - 52
           in (if 0 \<le> e then rne p (q * 2 ^ nat e) else rne (p * 2 ^ nat (- e)) q, e))"

text \<open>Conversion of an integer, quotient and product of doubles.\<close>

definition dbl_of_nat :: "nat \<Rightarrow> dbl" where
  "dbl_of_nat k = fl_frac k 1"

definition dbl_div :: "dbl \<Rightarrow> dbl \<Rightarrow> dbl" where
  "dbl_div a b = (let (m, e) = fl_frac (fst a) (fst b) in (m, e + snd a - snd b))"

definition dbl_mul :: "dbl \<Rightarrow> dbl \<Rightarrow> dbl" where
  "dbl_mul a b = (let (m, e) = fl_frac (fst a * fst b) 1 in (m, e + snd a + snd b))"

text \<open>Conversion to an integer type drops the fraction.\<close>

definition dbl_trunc :: "dbl \<Rightarrow> nat" where
  "dbl_trunc a = (if 0 \<le> snd a then fst a * 2 ^ nat (snd a) else fst a div 2 ^ nat (- snd a))"

text \<open>The real number a double stands for; it serves to state what rounding does.\<close>

definition val :: "dbl \<Rightarrow> real" where
  "val a = real (fst a) * 2 powi snd a"

subsection \<open>The dummy frame\<close>

text \<open>
  Element \<open>i\<close> of \<^verbatim>\<open>np.linspace(0, 255, num)\<close> as it is stored into a \<open>uint8\<close>
  array. numpy divides the distance 255.0 by \<open>num - 1\<close> to get the step, multiplies the
  index, converted to a double, by the step, adds the start 0.0 (which changes nothing),
  and sets the last sample to the stop value; for a single sample the value is the start
  value. Storing into \<open>uint8\<close> drops the fraction of a sample.
\<close>

definition linspace_u8 :: "nat \<Rightarrow> nat \<Rightarrow> byte" where
  "linspace_u8 num i =
     (if num \<le> 1 then 0
      else if i = num - 1 then 255
      else of_nat (dbl_trunc (dbl_mul (dbl_of_nat i)
                                (dbl_div (dbl_of_nat 255) (dbl_of_nat (num - 1))))))"

text \<open>The largest value of numpy's index type \<^verbatim>\<open>npy_intp\<close>, 64 bits wide.\<close>

definition max_intp :: int where
  "max_intp = 2 ^ 63 - 1"

text \<open>numpy leaves out the dimensions that are zero when it computes the size to check.\<close>

definition nonzero :: "int \<Rightarrow> int" where
  "nonzero d = (if d = 0 then 1 else d)"

text \<open>
  \<^verbatim>\<open>create_dummy_frame\<close>. The function itself checks nothing; what can fail is
  numpy. \<^verbatim>\<open>np.zeros((height, width, 3), dtype=np.uint8)\<close> raises \<open>ValueError\<close> on a
  dimension that is negative or does not fit the index type, and on a size in bytes (the
  product of the dimensions that are not zero) that does not fit it; it raises
  \<open>MemoryError\<close> when the memory is not granted. A dimension of zero is accepted and
  gives an array without elements. \<^verbatim>\<open>np.linspace(0, 255, width)\<close> needs arrays of
  \<open>width\<close> doubles. Whether the platform grants an array of \<open>n\<close> bytes is the parameter
  \<open>can_alloc\<close>. The assignment to \<^verbatim>\<open>frame[:, :, 0]\<close> writes the samples into
  channel 0 of every row.
\<close>

definition create_dummy_frame :: "(nat \<Rightarrow> bool) \<Rightarrow> int \<Rightarrow> int \<Rightarrow> error + image" where
  "create_dummy_frame can_alloc width height =
     (if height < 0 \<or> width < 0 \<or> max_intp < height \<or> max_intp < width then Inl ValueError
      else if max_intp < nonzero height * nonzero width * 3 then Inl ValueError
      else if \<not> can_alloc (nat (height * width * 3)) then Inl MemoryError
      else if \<not> can_alloc (8 * nat width) then Inl MemoryError
      else Inr (replicate (nat height)
                  (map (\<lambda>i. [linspace_u8 (nat width) i, 0, 0]) [0..<nat width])))"

text \<open>A platform that grants every array.\<close>

definition ample :: "nat \<Rightarrow> bool" where
  "ample n = True"

text \<open>The shape \<open>(h, w, c)\<close> of an array.\<close>

definition has_shape :: "image \<Rightarrow> nat \<Rightarrow> nat \<Rightarrow> nat \<Rightarrow> bool" where
  "has_shape img h w c \<longleftrightarrow>
     length img = h \<and> list_all (\<lambda>row. length row = w \<and> list_all (\<lambda>px. length px = c) row) img"

text \<open>Channel \<open>k\<close> of a row, left to right.\<close>

definition channel :: "nat \<Rightarrow> byte list list \<Rightarrow> byte list" where
  "channel k row = map (\<lambda>px. px ! k) row"

text \<open>
  A row of the dummy frame as the docstring and the comment describe it: channel 0 does
  not decrease from left to right, starts at 0 and ends at 255; channels 1 and 2 are zero.
\<close>

definition gradient_row :: "byte list list \<Rightarrow> bool" where
  "gradient_row row \<longleftrightarrow>
     sorted (channel 0 row) \<and> hd (channel 0 row) = 0 \<and> last (channel 0 row) = 255 \<and>
     list_all (\<lambda>v. v = 0) (channel 1 row) \<and> list_all (\<lambda>v. v = 0) (channel 2 row)"

section \<open>The decode step\<close>

text \<open>
  With the decode attempt returning the empty list, a call of
  \<^verbatim>\<open>OpenCVH264Decoder.decode\<close> appends the packet to the buffer and returns the empty
  list; for the empty packet the buffer stays as it is.
\<close>

lemma decode_appends:
  "OpenCVH264Decoder_decode p d = Inr ([], d\<lparr>frame_buffer := frame_buffer d @ p\<rparr>)"
  by (simp add: OpenCVH264Decoder_decode_def decode_h264_buffer_def)

lemma feed_appends:
  "OpenCVH264Decoder_feed ps d =
     Inr (replicate (length ps) [], d\<lparr>frame_buffer := frame_buffer d @ concat ps\<rparr>)"
  by (induction ps arbitrary: d) (simp_all add: decode_appends)

lemma facade_decode_eq:
  "H264Decoder_decode p h =
     Inr ([], if use_fallback h then h
              else h\<lparr>decoder := (decoder h)\<lparr>frame_buffer := frame_buffer (decoder h) @ p\<rparr>\<rparr>)"
  by (simp add: H264Decoder_decode_def decode_appends)

lemma facade_feed_fallback:
  "use_fallback h \<Longrightarrow> H264Decoder_feed ps h = Inr (replicate (length ps) [], h)"
  by (induction ps) (simp_all add: facade_decode_eq)

lemma facade_feed_total:
  "\<exists>h'. H264Decoder_feed ps h = Inr (replicate (length ps) [], h')"
proof (induction ps arbitrary: h)
  case Nil
  show ?case by simp
next
  case (Cons p ps)
  obtain h1 where h1: "H264Decoder_decode p h = Inr ([], h1)"
    using facade_decode_eq by blast
  obtain h2 where "H264Decoder_feed ps h1 = Inr (replicate (length ps) [], h2)"
    using Cons.IH by blast
  with h1 show ?case by simp
qed

lemma length_concat_replicate: "length (concat (replicate n xs)) = n * length xs"
  by (induction n) simp_all

text \<open>
  Claim C1. For every packet and every sequence of packets, \<^verbatim>\<open>decode\<close> of the
  backend \<^verbatim>\<open>OpenCVH264Decoder\<close> and of the wrapper \<^verbatim>\<open>H264Decoder\<close> raises
  nothing and returns a list of frames: every single call returns a list, and a sequence
  of calls returns one list per packet, from any state of the object.
\<close>

theorem decode_never_raises:
  "(\<exists>fs d'. OpenCVH264Decoder_decode p d = Inr (fs, d')) \<and>
   (\<exists>fs h'. H264Decoder_decode p h = Inr (fs, h')) \<and>
   (\<exists>fss d'. OpenCVH264Decoder_feed ps d = Inr (fss, d') \<and> length fss = length ps) \<and>
   (\<exists>fss h'. H264Decoder_feed ps h = Inr (fss, h') \<and> length fss = length ps)"
proof -
  have "\<exists>fss h'. H264Decoder_feed ps h = Inr (fss, h') \<and> length fss = length ps"
    using facade_feed_total [of ps h] by auto
  then show ?thesis
    by (simp add: decode_appends feed_appends facade_decode_eq)
qed

text \<open>
  Claim C4. The decode step is a stub: \<^verbatim>\<open>_decode_h264_buffer\<close> returns the empty
  list for every buffer, and so \<^verbatim>\<open>OpenCVH264Decoder.decode\<close> returns the empty list
  for every packet and every state of the decoder.
\<close>

theorem decode_step_is_stub:
  "decode_h264_buffer b = Inr [] \<and>
   (\<exists>d'. OpenCVH264Decoder_decode p d = Inr ([], d'))"
  by (simp add: decode_h264_buffer_def decode_appends)

text \<open>
  Claim C6. \<^verbatim>\<open>decode\<close> with the empty byte string returns the empty list and
  leaves the object as it was, buffer included, on \<^verbatim>\<open>OpenCVH264Decoder\<close>, on the
  wrapper in either mode, and on \<^verbatim>\<open>FFmpegH264Decoder\<close>.
\<close>

theorem empty_packet_is_noop:
  "OpenCVH264Decoder_decode [] d = Inr ([], d) \<and>
   H264Decoder_decode [] h = Inr ([], h) \<and>
   FFmpegH264Decoder_decode [] f = Inr ([], f)"
  by (simp add: OpenCVH264Decoder_decode_def H264Decoder_decode_def FFmpegH264Decoder_decode_def)

text \<open>
  Claim C5. Two consecutive calls of \<^verbatim>\<open>OpenCVH264Decoder.decode\<close> with the packets
  \<open>p1\<close> and \<open>p2\<close>, neither of them returning a frame, leave in the buffer what it held
  before the first call followed by \<open>p1\<close> and \<open>p2\<close>, as long as that is not longer
  than the limit.
\<close>

theorem two_decodes_concatenate:
  assumes "OpenCVH264Decoder_decode p1 d0 = Inr (fs1, d1)"
    and "OpenCVH264Decoder_decode p2 d1 = Inr (fs2, d2)"
    and "fs1 = []" and "fs2 = []"
    and "length (frame_buffer d0 @ p1 @ p2) \<le> buffer_limit"
  shows "frame_buffer d2 = frame_buffer d0 @ p1 @ p2"
proof -
  from assms(1) have "d1 = d0\<lparr>frame_buffer := frame_buffer d0 @ p1\<rparr>"
    by (simp add: decode_appends)
  moreover from assms(2) have "d2 = d1\<lparr>frame_buffer := frame_buffer d1 @ p2\<rparr>"
    by (simp add: decode_appends)
  ultimately show ?thesis by simp
qed

theorem two_decodes_concatenate_witness:
  "OpenCVH264Decoder_decode [0, 1] \<lparr>frame_buffer = [0, 0], last_frames = []\<rparr> =
     Inr ([], \<lparr>frame_buffer = [0, 0, 0, 1], last_frames = []\<rparr>) \<and>
   OpenCVH264Decoder_decode [103, 66] \<lparr>frame_buffer = [0, 0, 0, 1], last_frames = []\<rparr> =
     Inr ([], \<lparr>frame_buffer = [0, 0, 0, 1, 103, 66], last_frames = []\<rparr>) \<and>
   length (frame_buffer \<lparr>frame_buffer = [0, 0], last_frames = []\<rparr> @ [0, 1] @ [103, 66 :: byte])
     \<le> buffer_limit \<and>
   frame_buffer \<lparr>frame_buffer = [0, 0, 0, 1, 103, 66], last_frames = []\<rparr> =
     frame_buffer \<lparr>frame_buffer = [0, 0], last_frames = []\<rparr> @ [0, 1] @ [103, 66]"
proof -
  have a: "OpenCVH264Decoder_decode [0, 1] \<lparr>frame_buffer = [0, 0], last_frames = []\<rparr> =
     Inr ([], \<lparr>frame_buffer = [0, 0, 0, 1], last_frames = []\<rparr>)"
    by (simp add: OpenCVH264Decoder_decode_def decode_h264_buffer_def)
  have b: "OpenCVH264Decoder_decode [103, 66] \<lparr>frame_buffer = [0, 0, 0, 1], last_frames = []\<rparr> =
     Inr ([], \<lparr>frame_buffer = [0, 0, 0, 1, 103, 66], last_frames = []\<rparr>)"
    by (simp add: OpenCVH264Decoder_decode_def decode_h264_buffer_def)
  have c: "length (frame_buffer \<lparr>frame_buffer = [0, 0], last_frames = []\<rparr> @ [0, 1] @ [103, 66 :: byte])
     \<le> buffer_limit"
    by (simp add: buffer_limit_def)
  from two_decodes_concatenate [OF a b refl refl c] a b c show ?thesis by simp
qed

text \<open>
  Claim C3. The buffer is to stay within 1,048,576 bytes, being reset to empty once the
  packets appended without a frame exceed that. The code keeps the length test in the
  exception handler only, which the decode attempt never enters: 1100 packets of 1000
  bytes leave 1,100,000 bytes in the buffer, and the next call appends to them.
\<close>

theorem buffer_grows_past_limit:
  "OpenCVH264Decoder_feed (replicate 1100 (replicate 1000 0)) OpenCVH264Decoder_init =
     Inr (replicate 1100 [],
          \<lparr>frame_buffer = concat (replicate 1100 (replicate 1000 0)), last_frames = []\<rparr>) \<and>
   length (concat (replicate 1100 (replicate 1000 (0 :: byte)))) = 1100000 \<and>
   buffer_limit < 1100000 \<and>
   OpenCVH264Decoder_decode [0, 0, 0, 1]
     \<lparr>frame_buffer = concat (replicate 1100 (replicate 1000 0)), last_frames = []\<rparr> =
     Inr ([], \<lparr>frame_buffer = concat (replicate 1100 (replicate 1000 0)) @ [0, 0, 0, 1],
               last_frames = []\<rparr>)"
proof -
  have "OpenCVH264Decoder_feed (replicate 1100 (replicate 1000 0)) OpenCVH264Decoder_init =
     Inr (replicate 1100 [],
          \<lparr>frame_buffer = concat (replicate 1100 (replicate 1000 0)), last_frames = []\<rparr>)"
    unfolding feed_appends OpenCVH264Decoder_init_def by (simp only: length_replicate) simp
  moreover have "length (concat (replicate 1100 (replicate 1000 (0 :: byte)))) = 1100000"
    unfolding length_concat_replicate length_replicate by simp
  moreover have "buffer_limit < 1100000"
    by (simp add: buffer_limit_def)
  moreover have "OpenCVH264Decoder_decode [0, 0, 0, 1]
     \<lparr>frame_buffer = concat (replicate 1100 (replicate 1000 0)), last_frames = []\<rparr> =
     Inr ([], \<lparr>frame_buffer = concat (replicate 1100 (replicate 1000 0)) @ [0, 0, 0, 1],
               last_frames = []\<rparr>)"
    unfolding decode_appends by simp
  ultimately show ?thesis by (simp only: simp_thms)
qed

section \<open>The wrapper\<close>

text \<open>
  Claim C2. With \<^verbatim>\<open>use_fallback\<close> true, \<^verbatim>\<open>H264Decoder.decode\<close> returns the
  empty list for every packet and leaves the wrapper and the decoder inside it as they
  were, whatever the buffer holds; so does every sequence of calls.
\<close>

theorem fallback_returns_nothing:
  assumes "use_fallback h"
  shows "H264Decoder_decode p h = Inr ([], h) \<and>
         H264Decoder_feed ps h = Inr (replicate (length ps) [], h)"
  using assms by (simp add: facade_decode_eq facade_feed_fallback)

theorem fallback_returns_nothing_witness:
  "use_fallback \<lparr>decoder = \<lparr>frame_buffer = [0, 0, 1], last_frames = []\<rparr>, use_fallback = True\<rparr> \<and>
   H264Decoder_decode [0, 0, 0, 1, 103]
     \<lparr>decoder = \<lparr>frame_buffer = [0, 0, 1], last_frames = []\<rparr>, use_fallback = True\<rparr> =
     Inr ([], \<lparr>decoder = \<lparr>frame_buffer = [0, 0, 1], last_frames = []\<rparr>, use_fallback = True\<rparr>) \<and>
   H264Decoder_feed [[0, 0, 0, 1, 103], [], [66]]
     \<lparr>decoder = \<lparr>frame_buffer = [0, 0, 1], last_frames = []\<rparr>, use_fallback = True\<rparr> =
     Inr ([[], [], []],
          \<lparr>decoder = \<lparr>frame_buffer = [0, 0, 1], last_frames = []\<rparr>, use_fallback = True\<rparr>)"
  using fallback_returns_nothing
    [of "\<lparr>decoder = \<lparr>frame_buffer = [0, 0, 1], last_frames = []\<rparr>, use_fallback = True\<rparr>"
        "[0, 0, 0, 1, 103]" "[[0, 0, 0, 1, 103], [], [66]]"]
  by (simp del: H264Decoder_feed.simps)

text \<open>
  Claim C9. The constructor of \<^verbatim>\<open>H264Decoder\<close> takes no argument and sets
  \<^verbatim>\<open>use_fallback\<close> to true. A fresh wrapper therefore returns the empty list for
  every packet and every sequence of packets and stays as constructed, its inner buffer
  empty. Once the flag has been set to false from outside, a call appends the packet to
  the inner buffer.
\<close>

theorem fresh_facade_is_fallback:
  "use_fallback H264Decoder_init \<and>
   H264Decoder_decode p H264Decoder_init = Inr ([], H264Decoder_init) \<and>
   H264Decoder_feed ps H264Decoder_init = Inr (replicate (length ps) [], H264Decoder_init) \<and>
   frame_buffer (decoder H264Decoder_init) = [] \<and>
   H264Decoder_decode p (H264Decoder_init\<lparr>use_fallback := False\<rparr>) =
     Inr ([], \<lparr>decoder = \<lparr>frame_buffer = p, last_frames = []\<rparr>, use_fallback = False\<rparr>)"
proof -
  have fb: "use_fallback H264Decoder_init"
    by (simp add: H264Decoder_init_def)
  have "H264Decoder_decode p (H264Decoder_init\<lparr>use_fallback := False\<rparr>) =
     Inr ([], \<lparr>decoder = \<lparr>frame_buffer = p, last_frames = []\<rparr>, use_fallback = False\<rparr>)"
    by (simp add: facade_decode_eq H264Decoder_init_def OpenCVH264Decoder_init_def)
  moreover have "frame_buffer (decoder H264Decoder_init) = []"
    by (simp add: H264Decoder_init_def OpenCVH264Decoder_init_def)
  ultimately show ?thesis
    using fb by (simp add: facade_decode_eq facade_feed_fallback)
qed

section \<open>The FFmpeg decoder\<close>

text \<open>
  Claim C10. \<^verbatim>\<open>FFmpegH264Decoder.decode\<close> is constant: for every packet and every
  state of the object, and so whether or not the import of \<^verbatim>\<open>subprocess\<close>
  succeeded in the constructor, it returns the empty list, raises nothing and leaves the
  object as it was. Its body calls nothing, so the result and the object are all there is
  to a call.
\<close>

theorem ffmpeg_decode_is_constant:
  "FFmpegH264Decoder_decode p f = Inr ([], f) \<and>
   FFmpegH264Decoder_decode p (FFmpegH264Decoder_init import_ok) =
     Inr ([], FFmpegH264Decoder_init import_ok)"
  by (simp add: FFmpegH264Decoder_decode_def)

section \<open>Rounding to a double\<close>

text \<open>
  Rounding never crosses a number that is itself a double: a bound \<open>A * 2 ^ F\<close> with
  \<open>A\<close> of at most 53 bits that holds for the exact value holds for the rounded one.
\<close>

lemma rne_ge: "0 < q \<Longrightarrow> a * q \<le> p \<Longrightarrow> a \<le> rne p q"
proof -
  assume q: "0 < q" and "a * q \<le> p"
  then have "a \<le> p div q" by (simp add: less_eq_div_iff_mult_less_eq)
  moreover have "p div q \<le> rne p q" by (simp add: rne_def Let_def)
  ultimately show ?thesis by simp
qed

lemma rne_le: "0 < q \<Longrightarrow> p \<le> b * q \<Longrightarrow> rne p q \<le> b"
proof (cases "p mod q = 0")
  case True
  assume q: "0 < q" and pb: "p \<le> b * q"
  from pb q have "p div q \<le> b" by (metis div_le_mono nonzero_mult_div_cancel_right less_numeral_extra(3))
  with True q show ?thesis by (simp add: rne_def Let_def)
next
  case False
  assume q: "0 < q" and pb: "p \<le> b * q"
  from False have "p \<noteq> b * q" by auto
  with pb have "p < b * q" by simp
  then have "p div q < b" using q by (simp add: div_less_iff_less_mult)
  moreover have "rne p q \<le> p div q + 1" by (simp add: rne_def Let_def)
  ultimately show ?thesis by simp
qed

lemma bitlength_bounds: "0 < n \<Longrightarrow> 2 ^ bitlength n \<le> 2 * n \<and> n < 2 ^ bitlength n"
proof (induction n rule: bitlength.induct)
  case (1 n)
  show ?case
  proof (cases "n div 2 = 0")
    case True
    with "1.prems" have "n = 1" by (simp add: div_eq_0_iff) 
    then show ?thesis by (simp add: bitlength.simps)
  next
    case False
    with "1.IH" "1.prems" have ih: "2 ^ bitlength (n div 2) \<le> 2 * (n div 2)" "n div 2 < 2 ^ bitlength (n div 2)"
      by auto
    have b: "bitlength n = Suc (bitlength (n div 2))"
      using "1.prems" by (subst bitlength.simps) simp
    show ?thesis unfolding b using ih by (simp, linarith)
  qed
qed

lemma bitlength_0: "bitlength 0 = 0" by (simp add: bitlength.simps)
lemma bitlength_1: "bitlength 1 = 1" by (simp add: bitlength.simps)
lemma bitlength_Suc_0: "bitlength (Suc 0) = 1" by (simp add: bitlength.simps)
lemma bitlength_numeral: "bitlength (numeral k) = Suc (bitlength (numeral k div 2))"
  by (subst bitlength.simps) simp

lemma ilog2_cond:
  assumes "0 < p" "0 < q"
  shows "(if 0 \<le> t then q * 2 ^ nat t \<le> p else q \<le> p * 2 ^ nat (- t)) \<longleftrightarrow>
         2 powi t \<le> real p / real q"
proof (cases "0 \<le> t")
  case True
  then have "(2::real) powi t = 2 ^ nat t" by (simp add: power_int_def)
  moreover have "(q * 2 ^ nat t \<le> p) \<longleftrightarrow> (real q * 2 ^ nat t \<le> real p)"
    by (metis of_nat_le_iff of_nat_mult of_nat_numeral of_nat_power)
  ultimately show ?thesis using True assms by (simp add: pos_le_divide_eq mult.commute)
next
  case False
  define k where "k = nat (- t)"
  have pw: "(2::real) powi t = 1 / 2 ^ k"
    using False by (simp add: power_int_def k_def inverse_eq_divide power_one_over)
  have "(q \<le> p * 2 ^ k) \<longleftrightarrow> (real q \<le> real p * 2 ^ k)"
    by (metis of_nat_le_iff of_nat_mult of_nat_numeral of_nat_power)
  also have "\<dots> \<longleftrightarrow> (real q / 2 ^ k \<le> real p)"
    by (simp add: pos_divide_le_eq)
  also have "\<dots> \<longleftrightarrow> (1 / 2 ^ k * real q \<le> real p)"
    by simp
  also have "\<dots> \<longleftrightarrow> (1 / 2 ^ k \<le> real p / real q)"
    using assms(2) by (simp only: pos_le_divide_eq of_nat_0_less_iff)
  finally show ?thesis using False pw by (simp add: k_def)
qed

lemma ilog2_eq:
  assumes "0 < p" "0 < q"
  shows "ilog2 p q =
    (if 2 powi (int (bitlength p) - int (bitlength q)) \<le> real p / real q
     then int (bitlength p) - int (bitlength q)
     else int (bitlength p) - int (bitlength q) - 1)"
  unfolding ilog2_def Let_def by (simp only: ilog2_cond [OF assms])

lemma ilog2_spec:
  assumes "0 < p" "0 < q"
  shows "2 powi ilog2 p q \<le> real p / real q \<and> real p / real q < 2 powi (ilog2 p q + 1)"
proof -
  define t where "t = int (bitlength p) - int (bitlength q)"
  define x where "x = real p / real q"
  have X: "(2::real) powi t = 2 ^ bitlength p / 2 ^ bitlength q"
    unfolding t_def by (simp add: power_int_diff)
  have bp: "(2::real) ^ bitlength p \<le> 2 * real p" "real p < 2 ^ bitlength p"
    using bitlength_bounds [OF assms(1)]
    by (metis of_nat_le_iff of_nat_mult of_nat_numeral of_nat_power,
        metis of_nat_less_iff of_nat_numeral of_nat_power)
  have bq: "(2::real) ^ bitlength q \<le> 2 * real q" "real q < 2 ^ bitlength q"
    using bitlength_bounds [OF assms(2)]
    by (metis of_nat_le_iff of_nat_mult of_nat_numeral of_nat_power,
        metis of_nat_less_iff of_nat_numeral of_nat_power)
  have qpos: "0 < real q" and ppos: "0 < real p" using assms by simp_all
  have up: "x < 2 * 2 powi t"
  proof -
    have "real p * 2 ^ bitlength q < 2 ^ bitlength p * 2 ^ bitlength q"
      using bp(2) by simp
    also have "\<dots> \<le> 2 ^ bitlength p * (2 * real q)"
      using bq(1) by simp
    finally have "real p * 2 ^ bitlength q < 2 ^ bitlength p * (2 * real q)" .
    then have "real p / real q < 2 * (2 ^ bitlength p / 2 ^ bitlength q)"
      using qpos by (simp add: pos_divide_less_eq pos_less_divide_eq mult.commute mult.left_commute)
    then show ?thesis unfolding X x_def .
  qed
  have lo: "2 powi t < 2 * x"
  proof -
    have "2 ^ bitlength p * real q \<le> 2 * real p * real q"
      using bp(1) qpos by simp
    also have "\<dots> < 2 * real p * 2 ^ bitlength q"
      using bq(2) ppos by simp
    finally have "2 ^ bitlength p * real q < 2 * real p * 2 ^ bitlength q" .
    then have "2 ^ bitlength p / 2 ^ bitlength q < 2 * (real p / real q)"
      using qpos by (simp add: pos_divide_less_eq pos_less_divide_eq mult.commute mult.left_commute)
    then show ?thesis unfolding X x_def .
  qed
  have two: "(2::real) powi (t + 1) = 2 * 2 powi t" "(2::real) powi (t - 1 + 1) = 2 powi t"
    "(2::real) powi (t - 1) = 2 powi t / 2"
    by (simp_all add: power_int_add power_int_diff)
  have il: "ilog2 p q = (if 2 powi t \<le> x then t else t - 1)"
    unfolding t_def x_def by (rule ilog2_eq [OF assms])
  show ?thesis
  proof (cases "2 powi t \<le> x")
    case True
    with il up two show ?thesis by (simp add: x_def)
  next
    case False
    with il lo two show ?thesis by (simp add: x_def)
  qed
qed

lemma rne_real_ge:
  assumes "0 < Q" "real a \<le> real P / real Q"
  shows "a \<le> rne P Q"
proof -
  from assms have "real a * real Q \<le> real P" by (simp add: pos_le_divide_eq)
  then have "real (a * Q) \<le> real P" by simp
  then have "a * Q \<le> P" by (simp only: of_nat_le_iff)
  with assms(1) show ?thesis by (rule rne_ge)
qed

lemma rne_real_le:
  assumes "0 < Q" "real P / real Q \<le> real b"
  shows "rne P Q \<le> b"
proof -
  from assms have "real P \<le> real b * real Q" by (simp add: pos_divide_le_eq)
  then have "real P \<le> real (b * Q)" by simp
  then have "P \<le> b * Q" by (simp only: of_nat_le_iff)
  with assms(1) show ?thesis by (rule rne_le)
qed

lemma powi_neg_nat: "e < 0 \<Longrightarrow> (2::real) powi (- e) = 2 ^ nat (- e)"
  by (simp add: power_int_def)

lemma powi_nonneg_nat: "0 \<le> e \<Longrightarrow> (2::real) powi e = 2 ^ nat e"
  by (simp add: power_int_def)

lemma fl_frac_sig:
  assumes "0 < p" "0 < q"
  defines "e \<equiv> ilog2 p q - 52"
  shows "snd (fl_frac p q) = e"
    and "real a \<le> real p / real q * 2 powi (- e) \<Longrightarrow> a \<le> fst (fl_frac p q)"
    and "real p / real q * 2 powi (- e) \<le> real b \<Longrightarrow> fst (fl_frac p q) \<le> b"
proof -
  show "snd (fl_frac p q) = e"
    using assms(1) by (simp add: fl_frac_def Let_def e_def)
  show "a \<le> fst (fl_frac p q)" if a: "real a \<le> real p / real q * 2 powi (- e)"
  proof (cases "0 \<le> e")
    case True
    then have f: "fst (fl_frac p q) = rne p (q * 2 ^ nat e)"
      using assms(1) by (simp add: fl_frac_def Let_def e_def)
    have pw: "(2::real) powi (- e) = 1 / 2 ^ nat e"
      using True by (simp add: power_int_minus powi_nonneg_nat inverse_eq_divide)
    from a have "real a \<le> real p / real (q * 2 ^ nat e)"
      unfolding pw by simp
    then show ?thesis unfolding f using assms(2) by (intro rne_real_ge) simp_all
  next
    case False
    then have f: "fst (fl_frac p q) = rne (p * 2 ^ nat (- e)) q"
      using assms(1) by (simp add: fl_frac_def Let_def e_def)
    have pw: "(2::real) powi (- e) = 2 ^ nat (- e)"
      using False by (simp add: powi_neg_nat)
    from a have "real a \<le> real (p * 2 ^ nat (- e)) / real q"
      unfolding pw by simp
    then show ?thesis unfolding f using assms(2) by (intro rne_real_ge) simp_all
  qed
  show "fst (fl_frac p q) \<le> b" if b: "real p / real q * 2 powi (- e) \<le> real b"
  proof (cases "0 \<le> e")
    case True
    then have f: "fst (fl_frac p q) = rne p (q * 2 ^ nat e)"
      using assms(1) by (simp add: fl_frac_def Let_def e_def)
    have pw: "(2::real) powi (- e) = 1 / 2 ^ nat e"
      using True by (simp add: power_int_minus powi_nonneg_nat inverse_eq_divide)
    from b have "real p / real (q * 2 ^ nat e) \<le> real b"
      unfolding pw by simp
    then show ?thesis unfolding f using assms(2) by (intro rne_real_le) simp_all
  next
    case False
    then have f: "fst (fl_frac p q) = rne (p * 2 ^ nat (- e)) q"
      using assms(1) by (simp add: fl_frac_def Let_def e_def)
    have pw: "(2::real) powi (- e) = 2 ^ nat (- e)"
      using False by (simp add: powi_neg_nat)
    from b have "real (p * 2 ^ nat (- e)) / real q \<le> real b"
      unfolding pw by simp
    then show ?thesis unfolding f using assms(2) by (intro rne_real_le) simp_all
  qed
qed

lemma p2_add: "(2::real) powi (a + b) = 2 powi a * 2 powi b"
  by (simp add: power_int_add)

lemma p2_pos: "0 < (2::real) powi a"
  by (simp add: zero_less_power_int)

lemma p2_cancel: "(2::real) powi a * 2 powi (- a) = 1"
  using p2_add [of a "- a"] by simp

lemma p2_mono: "a \<le> b \<Longrightarrow> (2::real) powi a \<le> 2 powi b"
  by (rule power_int_increasing) simp_all

lemma val_fl_frac_zero: "val (fl_frac 0 q) = 0"
  by (simp add: fl_frac_def val_def)

lemma fl_frac_lower:
  assumes q: "0 < q" and le: "real A * 2 powi F \<le> real p / real q" and A: "A < 2 ^ 53"
  shows "real A * 2 powi F \<le> val (fl_frac p q)"
proof (cases "p = 0")
  case True
  with le show ?thesis by (simp add: val_fl_frac_zero)
next
  case False
  then have p: "0 < p" by simp
  define e where "e = ilog2 p q - 52"
  define x where "x = real p / real q"
  define m where "m = fst (fl_frac p q)"
  have v: "val (fl_frac p q) = real m * 2 powi e"
    using fl_frac_sig(1) [OF p q] by (simp add: val_def m_def e_def)
  have lo: "2 powi (e + 52) \<le> x"
    using ilog2_spec [OF p q] by (simp add: e_def x_def)
  show ?thesis
  proof (cases "e \<le> F")
    case True
    define N where "N = A * 2 ^ nat (F - e)"
    have N: "real N = real A * 2 powi (F - e)"
      using True by (simp add: N_def powi_nonneg_nat)
    have "real A * 2 powi F * 2 powi (- e) \<le> x * 2 powi (- e)"
      using le p2_pos [of "- e"] unfolding x_def by (intro mult_right_mono) simp_all
    moreover have "real A * 2 powi F * 2 powi (- e) = real N"
      unfolding N using p2_add [of F "- e"] by simp
    ultimately have "real N \<le> real p / real q * 2 powi (- e)"
      by (simp add: x_def)
    then have "N \<le> m"
      unfolding m_def e_def by (rule fl_frac_sig(2) [OF p q])
    then have "real N * 2 powi e \<le> real m * 2 powi e"
      using p2_pos [of e] by (intro mult_right_mono) simp_all
    moreover have "real N * 2 powi e = real A * 2 powi F"
      unfolding N using p2_add [of "F - e" e] by simp
    ultimately show ?thesis unfolding v by simp
  next
    case False
    have "2 powi (e + 52) * 2 powi (- e) \<le> x * 2 powi (- e)"
      using lo p2_pos [of "- e"] by (intro mult_right_mono) simp_all
    moreover have "(2::real) powi (e + 52) * 2 powi (- e) = real (2 ^ 52)"
      using p2_add [of "e + 52" "- e"] by simp
    ultimately have "real (2 ^ 52) \<le> real p / real q * 2 powi (- e)"
      by (simp add: x_def)
    then have "2 ^ 52 \<le> m"
      unfolding m_def e_def by (rule fl_frac_sig(2) [OF p q])
    then have "real (2 ^ 52) * 2 powi e \<le> real m * 2 powi e"
      using p2_pos [of e] by (intro mult_right_mono) simp_all
    moreover have "real (2 ^ 52) * 2 powi e = 2 powi (e + 52)"
      using p2_add [of e 52] by simp
    moreover have "real A * 2 powi F \<le> 2 powi (F + 53)"
    proof -
      have "real A \<le> 2 ^ 53" using A by (metis less_imp_le of_nat_le_iff of_nat_numeral of_nat_power)
      then have "real A * 2 powi F \<le> 2 ^ 53 * 2 powi F"
        using p2_pos [of F] by (intro mult_right_mono) simp_all
      then show ?thesis using p2_add [of F 53] by simp
    qed
    moreover have "(2::real) powi (F + 53) \<le> 2 powi (e + 52)"
      using False by (intro p2_mono) simp
    ultimately show ?thesis unfolding v by linarith
  qed
qed

lemma fl_frac_upper:
  assumes q: "0 < q" and le: "real p / real q \<le> real B * 2 powi F" and B: "B \<le> 2 ^ 53"
  shows "val (fl_frac p q) \<le> real B * 2 powi F"
proof (cases "p = 0")
  case True
  then show ?thesis using p2_pos [of F] by (simp add: val_fl_frac_zero)
next
  case False
  then have p: "0 < p" by simp
  define e where "e = ilog2 p q - 52"
  define x where "x = real p / real q"
  define m where "m = fst (fl_frac p q)"
  have v: "val (fl_frac p q) = real m * 2 powi e"
    using fl_frac_sig(1) [OF p q] by (simp add: val_def m_def e_def)
  have lo: "2 powi (e + 52) \<le> x"
    using ilog2_spec [OF p q] by (simp add: e_def x_def)
  show ?thesis
  proof (cases "e \<le> F")
    case True
    define N where "N = B * 2 ^ nat (F - e)"
    have N: "real N = real B * 2 powi (F - e)"
      using True by (simp add: N_def powi_nonneg_nat)
    have "x * 2 powi (- e) \<le> real B * 2 powi F * 2 powi (- e)"
      using le p2_pos [of "- e"] unfolding x_def by (intro mult_right_mono) simp_all
    moreover have "real B * 2 powi F * 2 powi (- e) = real N"
      unfolding N using p2_add [of F "- e"] by simp
    ultimately have "real p / real q * 2 powi (- e) \<le> real N"
      by (simp add: x_def)
    then have "m \<le> N"
      unfolding m_def e_def by (rule fl_frac_sig(3) [OF p q])
    then have "real m * 2 powi e \<le> real N * 2 powi e"
      using p2_pos [of e] by (intro mult_right_mono) simp_all
    moreover have "real N * 2 powi e = real B * 2 powi F"
      unfolding N using p2_add [of "F - e" e] by simp
    ultimately show ?thesis unfolding v by simp
  next
    case False
    have "real B * 2 powi F \<le> 2 powi (F + 53)"
    proof -
      have "real B \<le> 2 ^ 53" using B by (metis of_nat_le_iff of_nat_numeral of_nat_power)
      then have "real B * 2 powi F \<le> 2 ^ 53 * 2 powi F"
        using p2_pos [of F] by (intro mult_right_mono) simp_all
      then show ?thesis using p2_add [of F 53] by simp
    qed
    moreover have "(2::real) powi (F + 53) \<le> 2 powi (e + 52)"
      using False by (intro p2_mono) simp
    ultimately have xle: "x \<le> 2 powi (e + 52)"
      using le by (simp add: x_def)
    have "x * 2 powi (- e) \<le> 2 powi (e + 52) * 2 powi (- e)"
      using xle p2_pos [of "- e"] by (intro mult_right_mono) simp_all
    moreover have "(2::real) powi (e + 52) * 2 powi (- e) = real (2 ^ 52)"
      using p2_add [of "e + 52" "- e"] by simp
    ultimately have "real p / real q * 2 powi (- e) \<le> real (2 ^ 52)"
      by (simp add: x_def)
    then have "m \<le> 2 ^ 52"
      unfolding m_def e_def by (rule fl_frac_sig(3) [OF p q])
    then have "real m * 2 powi e \<le> real (2 ^ 52) * 2 powi e"
      using p2_pos [of e] by (intro mult_right_mono) simp_all
    moreover have "real (2 ^ 52) * 2 powi e = 2 powi (e + 52)"
      using p2_add [of e 52] by simp
    ultimately show ?thesis unfolding v using lo le unfolding x_def by linarith
  qed
qed

lemma val_dbl_of_nat:
  assumes "k < 2 ^ 53"
  shows "val (dbl_of_nat k) = real k"
proof -
  have "real k * 2 powi 0 \<le> val (fl_frac k 1)"
    using assms by (intro fl_frac_lower) simp_all
  moreover have "val (fl_frac k 1) \<le> real k * 2 powi 0"
    using assms by (intro fl_frac_upper) simp_all
  ultimately show ?thesis by (simp add: dbl_of_nat_def)
qed

lemma val_dbl_mul:
  "val (dbl_mul a b) = val (fl_frac (fst a * fst b) 1) * 2 powi (snd a + snd b)"
  by (simp add: dbl_mul_def val_def split_beta p2_add mult.assoc)

lemma val_mult:
  "val a * val b = real (fst a * fst b) * 2 powi (snd a + snd b)"
  by (simp add: val_def p2_add)

lemma dbl_mul_lower:
  assumes le: "real A * 2 powi F \<le> val a * val b" and A: "A < 2 ^ 53"
  shows "real A * 2 powi F \<le> val (dbl_mul a b)"
proof -
  define s where "s = snd a + snd b"
  have "real A * 2 powi F * 2 powi (- s) \<le> real (fst a * fst b) * 2 powi s * 2 powi (- s)"
    using le p2_pos [of "- s"] unfolding val_mult s_def by (intro mult_right_mono) simp_all
  moreover have "real A * 2 powi F * 2 powi (- s) = real A * 2 powi (F - s)"
    using p2_add [of F "- s"] by simp
  moreover have "real (fst a * fst b) * 2 powi s * 2 powi (- s) = real (fst a * fst b) / real 1"
    using p2_cancel [of s] by (simp add: mult.assoc)
  ultimately have "real A * 2 powi (F - s) \<le> real (fst a * fst b) / real 1"
    by linarith
  then have "real A * 2 powi (F - s) \<le> val (fl_frac (fst a * fst b) 1)"
    using A by (intro fl_frac_lower) simp_all
  then have "real A * 2 powi (F - s) * 2 powi s \<le> val (fl_frac (fst a * fst b) 1) * 2 powi s"
    using p2_pos [of s] by (intro mult_right_mono) simp_all
  moreover have "real A * 2 powi (F - s) * 2 powi s = real A * 2 powi F"
    using p2_add [of "F - s" s] by simp
  ultimately show ?thesis unfolding val_dbl_mul s_def by simp
qed

lemma dbl_mul_upper:
  assumes le: "val a * val b \<le> real B * 2 powi F" and B: "B \<le> 2 ^ 53"
  shows "val (dbl_mul a b) \<le> real B * 2 powi F"
proof -
  define s where "s = snd a + snd b"
  have "real (fst a * fst b) * 2 powi s * 2 powi (- s) \<le> real B * 2 powi F * 2 powi (- s)"
    using le p2_pos [of "- s"] unfolding val_mult s_def by (intro mult_right_mono) simp_all
  moreover have "real B * 2 powi F * 2 powi (- s) = real B * 2 powi (F - s)"
    using p2_add [of F "- s"] by simp
  moreover have "real (fst a * fst b) * 2 powi s * 2 powi (- s) = real (fst a * fst b) / real 1"
    using p2_cancel [of s] by (simp add: mult.assoc)
  ultimately have "real (fst a * fst b) / real 1 \<le> real B * 2 powi (F - s)"
    by linarith
  then have "val (fl_frac (fst a * fst b) 1) \<le> real B * 2 powi (F - s)"
    using B by (intro fl_frac_upper) simp_all
  then have "val (fl_frac (fst a * fst b) 1) * 2 powi s \<le> real B * 2 powi (F - s) * 2 powi s"
    using p2_pos [of s] by (intro mult_right_mono) simp_all
  moreover have "real B * 2 powi (F - s) * 2 powi s = real B * 2 powi F"
    using p2_add [of "F - s" s] by simp
  ultimately show ?thesis unfolding val_dbl_mul s_def by simp
qed

lemma dbl_trunc_eq:
  assumes lo: "real K \<le> val a" and hi: "val a < real K + 1"
  shows "dbl_trunc a = K"
proof (cases "0 \<le> snd a")
  case True
  then have v: "val a = real (fst a * 2 ^ nat (snd a))"
    by (simp add: val_def powi_nonneg_nat)
  from lo hi have "K \<le> fst a * 2 ^ nat (snd a)" "fst a * 2 ^ nat (snd a) < K + 1"
    unfolding v by (simp_all only: of_nat_le_iff flip: of_nat_Suc of_nat_less_iff Suc_eq_plus1)
  with True show ?thesis by (simp add: dbl_trunc_def)
next
  case False
  define k where "k = nat (- snd a)"
  have pw: "(2::real) powi snd a = 1 / 2 ^ k"
    using False by (simp add: power_int_def k_def inverse_eq_divide power_one_over)
  have v: "val a = real (fst a) / 2 ^ k"
    by (simp add: val_def pw)
  from lo have "real K * 2 ^ k \<le> real (fst a)"
    unfolding v by (simp add: pos_le_divide_eq)
  then have "real (2 ^ k * K) \<le> real (fst a)" by (simp add: mult.commute)
  then have a: "2 ^ k * K \<le> fst a" by (simp only: of_nat_le_iff)
  from hi have "real (fst a) < (real K + 1) * 2 ^ k"
    unfolding v by (simp add: pos_divide_less_eq)
  then have "real (fst a) < real (2 ^ k * Suc K)" by (simp add: algebra_simps)
  then have b: "fst a < 2 ^ k * Suc K" by (simp only: of_nat_less_iff)
  from a b have "fst a div 2 ^ k = K" by (rule div_nat_eqI)
  with False show ?thesis by (simp add: dbl_trunc_def k_def)
qed

lemma step_960:
  "dbl_div (dbl_of_nat 255) (dbl_of_nat 959) = (4790064254346096, - 54)"
  by (simp add: bitlength_0 bitlength_1 bitlength_Suc_0 bitlength_numeral dbl_div_def
      dbl_of_nat_def fl_frac_def ilog2_def rne_def Let_def)

section \<open>The dummy frame\<close>

text \<open>
  At 960 samples the step is \<open>4790064254346096 * 2 ^ - 54\<close>, slightly above
  \<open>255 / 959\<close>, and every sample before the last has the whole part of
  \<open>i * 255 / 959\<close>.
\<close>

lemma samples_960:
  assumes i: "i < 959"
  shows "linspace_u8 960 i = of_nat (i * 255 div 959)"
proof -
  define K where "K = i * 255 div 959"
  define st :: dbl where "st = (4790064254346096, - 54)"
  define y where "y = dbl_mul (dbl_of_nat i) st"
  have "i * 255 = 959 * K + i * 255 mod 959" by (simp add: K_def)
  moreover have "i * 255 mod 959 < 959" by simp
  ultimately have K: "959 * K \<le> 255 * i" "255 * i < 959 * K + 959" by linarith+
  have lo: "K * 2 ^ 54 \<le> i * 4790064254346096"
    using K(1) by simp
  have hi: "i * 4790064254346096 + 2 ^ 14 \<le> (K + 1) * 2 ^ 54"
    using K(2) i by simp
  have K255: "K < 255" using K(1) i by simp
  have vi: "val (dbl_of_nat i) = real i"
    using i by (intro val_dbl_of_nat) simp
  have vst: "val st = 4790064254346096 * 2 powi (- 54)"
    by (simp add: val_def st_def)
  have x: "val (dbl_of_nat i) * val st = real (i * 4790064254346096) * 2 powi (- 54)"
    unfolding vi vst by simp
  have p54: "(2::real) powi (- 54) = 1 / 2 ^ 54" and p40: "(2::real) powi (- 40) = 1 / 2 ^ 40"
    by (simp_all add: power_int_minus inverse_eq_divide)
  have "real K * 2 powi 0 \<le> val (dbl_of_nat i) * val st"
  proof -
    have "real (K * 2 ^ 54) \<le> real (i * 4790064254346096)"
      using lo by (simp only: of_nat_le_iff)
    then show ?thesis unfolding x p54 by (simp add: pos_le_divide_eq)
  qed
  then have "real K * 2 powi 0 \<le> val y"
    unfolding y_def using K255 by (intro dbl_mul_lower) simp_all
  then have ylo: "real K \<le> val y" by simp
  define B where "B = (K + 1) * 2 ^ 40 - 1"
  have B1: "B + 1 = (K + 1) * 2 ^ 40" by (simp add: B_def)
  have B53: "B \<le> 2 ^ 53" using K255 by (simp add: B_def)
  have "val (dbl_of_nat i) * val st \<le> real B * 2 powi (- 40)"
  proof -
    have "i * 4790064254346096 + 2 ^ 14 \<le> (B + 1) * 2 ^ 14"
      using hi unfolding B1 by simp
    then have "i * 4790064254346096 \<le> B * 2 ^ 14" by simp
    then have "real (i * 4790064254346096) \<le> real (B * 2 ^ 14)"
      by (simp only: of_nat_le_iff)
    then show ?thesis unfolding x p54 p40 by (simp add: field_simps)
  qed
  then have "val y \<le> real B * 2 powi (- 40)"
    unfolding y_def using B53 by (intro dbl_mul_upper)
  moreover have "real B * 2 powi (- 40) < real K + 1"
  proof -
    have "real B < real (B + 1)" by simp
    also have "\<dots> = (real K + 1) * 2 ^ 40" unfolding B1 by simp
    finally show ?thesis unfolding p40 by (simp add: field_simps)
  qed
  ultimately have yhi: "val y < real K + 1" by simp
  have "dbl_trunc y = K" using ylo yhi by (rule dbl_trunc_eq)
  moreover have "dbl_div (dbl_of_nat 255) (dbl_of_nat (960 - 1)) = st"
    using step_960 by (simp add: st_def)
  ultimately show ?thesis
    using i by (simp add: linspace_u8_def y_def K_def)
qed

lemma byte_of_nat_mono: "a \<le> b \<Longrightarrow> b \<le> 255 \<Longrightarrow> (of_nat a :: byte) \<le> of_nat b"
  by (simp add: word_le_nat_alt unat_of_nat)

lemma exact_samples_sorted:
  "sorted (map (\<lambda>i. of_nat (i * 255 div 959) :: byte) [0..<n])" if "n = 960"
proof -
  have "(of_nat (i * 255 div 959) :: byte) \<le> of_nat (j * 255 div 959)" if "i \<le> j" "j < n" for i j
  proof -
    have "i * 255 div 959 \<le> j * 255 div 959"
      using that by (simp add: div_le_mono)
    moreover have "j * 255 div 959 \<le> 255"
      using that \<open>n = 960\<close> by simp
    ultimately show ?thesis by (rule byte_of_nat_mono)
  qed
  then show ?thesis
    by (auto simp: sorted_map intro!: sorted_wrt_mono_rel [OF _ sorted_wrt_upt])
qed

lemma row_960:
  assumes "n = 960"
  shows "map (linspace_u8 n) [0..<n] = map (\<lambda>i. of_nat (i * 255 div 959)) [0..<n]"
proof (rule map_cong [OF refl])
  fix i assume "i \<in> set [0..<n]"
  then have "i < 959 \<or> i = 959" using assms by auto
  then show "linspace_u8 n i = of_nat (i * 255 div 959)"
  proof
    assume "i < 959"
    then show ?thesis unfolding assms by (rule samples_960)
  next
    assume "i = 959"
    then show ?thesis unfolding assms by (simp add: linspace_u8_def)
  qed
qed

lemma channel0_row:
  "channel 0 (map (\<lambda>i. [linspace_u8 n i, 0, 0]) [0..<n]) = map (linspace_u8 n) [0..<n]"
  by (simp add: channel_def comp_def)

lemma channel1_row:
  "channel (Suc 0) (map (\<lambda>i. [linspace_u8 n i, 0, 0]) [0..<n]) = replicate n 0"
  by (simp add: channel_def comp_def map_replicate_const)

lemma channel2_row:
  "channel 2 (map (\<lambda>i. [linspace_u8 n i, 0, 0]) [0..<n]) = replicate n 0"
  by (simp add: channel_def comp_def map_replicate_const numeral_2_eq_2)

lemma gradient_row_960:
  assumes "n = 960"
  shows "gradient_row (map (\<lambda>i. [linspace_u8 n i, 0, 0]) [0..<n])"
proof -
  have pos: "0 < n" "n - 1 < n" "1 < n" using assms by simp_all
  have "sorted (map (linspace_u8 n) [0..<n])"
    unfolding row_960 [OF assms] using assms by (rule exact_samples_sorted)
  moreover have "hd (map (linspace_u8 n) [0..<n]) = 0"
  proof -
    have "linspace_u8 960 0 = of_nat (0 * 255 div 959)" by (rule samples_960) simp
    then have "linspace_u8 n 0 = 0" unfolding assms by simp
    then show ?thesis using pos by (simp add: hd_map)
  qed
  moreover have "last (map (linspace_u8 n) [0..<n]) = 255"
    using pos by (simp add: last_map linspace_u8_def)
  ultimately show ?thesis
    unfolding gradient_row_def channel0_row
    by (simp add: channel1_row channel2_row list_all_iff)
qed

lemma has_shape_dummy:
  "has_shape (replicate h (map (\<lambda>i. [linspace_u8 n i, 0, 0]) [0..<n])) h n 3"
  by (simp add: has_shape_def list_all_iff)

lemma create_dummy_frame_ok:
  assumes "0 \<le> w" "0 \<le> h" "nonzero h * nonzero w * 3 \<le> max_intp"
    and "can_alloc (nat (h * w * 3))" "can_alloc (8 * nat w)"
  shows "create_dummy_frame can_alloc w h =
     Inr (replicate (nat h) (map (\<lambda>i. [linspace_u8 (nat w) i, 0, 0]) [0..<nat w]))"
proof -
  have "h \<le> nonzero h * nonzero w * 3" "w \<le> nonzero h * nonzero w * 3"
    using assms(1,2) by (auto simp: nonzero_def intro: order_trans [OF _ mult_left_mono [of 1]] )
  with assms show ?thesis by (simp add: create_dummy_frame_def)
qed

lemmas dbl_eval = bitlength_0 bitlength_1 bitlength_Suc_0 bitlength_numeral linspace_u8_def
  dbl_trunc_def dbl_mul_def dbl_div_def dbl_of_nat_def fl_frac_def ilog2_def rne_def Let_def

text \<open>
  At other widths the rounding shows: at 106 samples the step is below \<open>255 / 105\<close>
  and sample 21 is stored as 50, where \<open>21 * 255 / 105\<close> is 51; likewise sample 39 of
  118 is 84 and not 85.
\<close>

lemma samples_rounded_down: "linspace_u8 106 21 = 50 \<and> linspace_u8 118 39 = 84"
  by (simp add: dbl_eval)

lemma frame_4_2:
  "create_dummy_frame ample 4 2 =
     Inr [[[0, 0, 0], [85, 0, 0], [170, 0, 0], [255, 0, 0]],
          [[0, 0, 0], [85, 0, 0], [170, 0, 0], [255, 0, 0]]]"
proof -
  have "map (\<lambda>i. [linspace_u8 4 i, 0, 0]) [0, 1, 2, 3] =
      [[0, 0, 0], [85, 0, 0], [170, 0, 0], [255, 0, 0]]"
    by (simp add: dbl_eval)
  moreover have "[0..<4] = [0, 1, 2, 3::nat]"
    by (simp add: upt_rec)
  moreover have "replicate 2 x = [x, x]" for x :: "byte list list"
    by (simp add: numeral_2_eq_2)
  ultimately show ?thesis
    by (simp add: create_dummy_frame_def ample_def max_intp_def nonzero_def)
qed

text \<open>
  Claim C7. \<^verbatim>\<open>create_dummy_frame(960, 720)\<close> returns an image of height 720, width
  960 and 3 channels; in every row channel 0 does not decrease from left to right, starts
  at 0 and ends at 255, and channels 1 and 2 are zero. The image is to have the shape
  (height, width, 3) for every positive width and height. numpy refuses a dimension beyond
  its index type: width \<open>2 ^ 64\<close> and height 1 raise \<open>ValueError\<close>.
\<close>

theorem dummy_frame_huge_width_counterexample:
  "create_dummy_frame ample (2 ^ 64) 1 = Inl ValueError"
  by (simp add: create_dummy_frame_def max_intp_def)

text \<open>
  Claim C7, amended. Granted the memory for its arrays,
  \<^verbatim>\<open>create_dummy_frame(960, 720)\<close> returns the image described above; and for every
  positive width and height with \<open>height * width * 3\<close> within the index type and the
  memory granted, the image has the shape (height, width, 3).
\<close>

theorem create_dummy_frame_gradient:
  "(can_alloc (720 * 960 * 3) \<and> can_alloc (8 * 960) \<longrightarrow>
      (\<exists>img. create_dummy_frame can_alloc 960 720 = Inr img \<and> has_shape img 720 960 3 \<and>
             list_all gradient_row img)) \<and>
   (0 < w \<and> 0 < h \<and> h * w * 3 \<le> max_intp \<and>
    can_alloc (nat (h * w * 3)) \<and> can_alloc (8 * nat w) \<longrightarrow>
      (\<exists>img. create_dummy_frame can_alloc w h = Inr img \<and> has_shape img (nat h) (nat w) 3))"
proof (intro conjI impI)
  assume a: "can_alloc (720 * 960 * 3) \<and> can_alloc (8 * 960)"
  define n :: nat where "n = 960"
  define k :: nat where "k = 720"
  have nat_n: "nat 960 = n" "nat 720 = k" by (simp_all add: n_def k_def)
  have "nonzero 720 * nonzero 960 * 3 \<le> max_intp"
    by (simp add: nonzero_def max_intp_def)
  moreover have "can_alloc (nat (720 * 960 * 3))" "can_alloc (8 * nat 960)"
    using a by simp_all
  ultimately have f: "create_dummy_frame can_alloc 960 720 =
      Inr (replicate k (map (\<lambda>i. [linspace_u8 n i, 0, 0]) [0..<n]))"
    unfolding nat_n [symmetric] by (intro create_dummy_frame_ok) simp_all
  have "has_shape (replicate k (map (\<lambda>i. [linspace_u8 n i, 0, 0]) [0..<n])) k n 3"
    by (rule has_shape_dummy)
  moreover have "list_all gradient_row (replicate k (map (\<lambda>i. [linspace_u8 n i, 0, 0]) [0..<n]))"
    unfolding list_all_iff using gradient_row_960 [OF n_def] by auto
  ultimately show "\<exists>img. create_dummy_frame can_alloc 960 720 = Inr img \<and>
      has_shape img 720 960 3 \<and> list_all gradient_row img"
    unfolding f n_def [symmetric] k_def [symmetric] by blast
next
  assume a: "0 < w \<and> 0 < h \<and> h * w * 3 \<le> max_intp \<and>
    can_alloc (nat (h * w * 3)) \<and> can_alloc (8 * nat w)"
  then have "nonzero h * nonzero w * 3 \<le> max_intp" by (simp add: nonzero_def)
  with a have "create_dummy_frame can_alloc w h =
     Inr (replicate (nat h) (map (\<lambda>i. [linspace_u8 (nat w) i, 0, 0]) [0..<nat w]))"
    by (intro create_dummy_frame_ok) simp_all
  then show "\<exists>img. create_dummy_frame can_alloc w h = Inr img \<and> has_shape img (nat h) (nat w) 3"
    using has_shape_dummy [of "nat h" "nat w"] by simp
qed

theorem create_dummy_frame_gradient_witness:
  "ample (720 * 960 * 3) \<and> ample (8 * 960) \<and>
   (0::int) < 4 \<and> (0::int) < 2 \<and> (2::int) * 4 * 3 \<le> max_intp \<and>
   ample (nat (2 * 4 * 3)) \<and> ample (8 * nat 4) \<and>
   create_dummy_frame ample 4 2 =
     Inr [[[0, 0, 0], [85, 0, 0], [170, 0, 0], [255, 0, 0]],
          [[0, 0, 0], [85, 0, 0], [170, 0, 0], [255, 0, 0]]] \<and>
   (\<exists>img. create_dummy_frame ample 4 2 = Inr img \<and> has_shape img 2 4 3) \<and>
   (\<exists>img. create_dummy_frame ample 960 720 = Inr img \<and> has_shape img 720 960 3 \<and>
            list_all gradient_row img)"
proof -
  have h: "ample (720 * 960 * 3) \<and> ample (8 * 960)"
    "(0::int) < 4 \<and> (0::int) < 2 \<and> (2::int) * 4 * 3 \<le> max_intp \<and>
     ample (nat (2 * 4 * 3)) \<and> ample (8 * nat 4)"
    by (simp_all add: ample_def max_intp_def)
  from create_dummy_frame_gradient [where can_alloc = ample and w = 4 and h = 2] h
  have "(\<exists>img. create_dummy_frame ample 960 720 = Inr img \<and> has_shape img 720 960 3 \<and>
            list_all gradient_row img)"
    "(\<exists>img. create_dummy_frame ample 4 2 = Inr img \<and> has_shape img (nat 2) (nat 4) 3)"
    by blast+
  moreover have "nat 2 = 2" "nat 4 = 4" by simp_all
  ultimately show ?thesis using h frame_4_2 by (simp only: simp_thms)
qed

text \<open>
  Claim C8. \<^verbatim>\<open>create_dummy_frame\<close> is to fail whenever the width or the height is
  not positive, and so on width 0 and height 10. The function checks nothing itself, and
  numpy accepts a dimension of zero: the call returns ten rows without pixels.
\<close>

theorem dummy_frame_zero_width_counterexample:
  "create_dummy_frame ample 0 10 = Inr [[], [], [], [], [], [], [], [], [], []]"
proof -
  have "replicate 10 x = [x, x, x, x, x, x, x, x, x, x]" for x :: "byte list list"
    by (simp add: numeral_eq_Suc)
  then show ?thesis
    by (simp add: create_dummy_frame_def ample_def max_intp_def nonzero_def)
qed

text \<open>
  Claim C8, amended. \<^verbatim>\<open>create_dummy_frame\<close> fails, with the \<open>ValueError\<close> of
  numpy, whenever the width or the height is negative; width 0 and height 10 return an
  image of ten rows without pixels.
\<close>

theorem dummy_frame_negative_fails:
  "(w < 0 \<or> h < 0 \<longrightarrow> create_dummy_frame can_alloc w h = Inl ValueError) \<and>
   (can_alloc 0 \<longrightarrow> create_dummy_frame can_alloc 0 10 = Inr (replicate 10 []))"
  by (simp add: create_dummy_frame_def max_intp_def nonzero_def)

theorem dummy_frame_negative_fails_witness:
  "((- 1 :: int) < 0 \<or> (10 :: int) < 0) \<and> ample 0 \<and>
   create_dummy_frame ample (- 1) 10 = Inl ValueError \<and>
   create_dummy_frame ample 0 10 = Inr (replicate 10 [])"
  using dummy_frame_negative_fails [where can_alloc = ample and w = "- 1" and h = 10] by (simp add: ample_def)

end
